theory Spec2Isabelle
  imports Main "HOL-Library.Sublist"
begin

section \<open>Domain model (src/models/index.ts)\<close>

text \<open>
  TypeScript strings are \<open>string\<close>; an optional field (\<open>f?: T\<close>) or a nullable one
  (\<open>T | null\<close>) is an \<open>option\<close>. Field names follow the source; a prefix is added
  where two interfaces share a field name or the name is taken in Isabelle
  (\<open>id\<close>, \<open>name\<close>, \<open>file\<close>, \<open>shared\<close>, \<open>displayName\<close>, \<open>sharedBy\<close>, \<open>webUrl\<close>).
  An optional object with a single string field (\<open>file?: { mimeType }\<close>,
  \<open>medium?: { url }\<close>) is the optional string.
\<close>

record Person =
  "identifier" :: string
  displayName :: string
  imageCount :: nat

text \<open>The anonymous object type of \<open>SharedImage.sharedBy\<close>.\<close>

record SharedBy =
  sb_displayName :: string
  sb_identifier :: string

record SharedImage =
  img_id :: string
  img_name :: string
  mimeType :: string
  sharedBy :: SharedBy
  thumbnailUrl :: "string option"  \<comment> \<open>\<open>preview.thumbnailUrl: string | null\<close>\<close>
  dateShared :: string
  webUrl :: "string option"

record PeopleGrouping =
  person :: Person
  images :: "SharedImage list"

record SelectionState =
  selectedPerson :: "Person option"
  displayImages :: "SharedImage list"
  availablePeople :: "Person list"
  isLoading :: bool
  error :: "string option"

text \<open>The raw Graph API item and its nested objects.\<close>

record GraphUser =
  user_displayName :: string
  user_id :: string
  email :: "string option"

record GraphThumbnail =
  small :: "string option"   \<comment> \<open>\<open>small?: { url: string }\<close>\<close>
  medium :: "string option"
  large :: "string option"

record GraphDriveItem =
  item_id :: string
  item_name :: string
  item_file :: "string option"               \<comment> \<open>\<open>file?: { mimeType: string }\<close>\<close>
  item_sharedBy :: "GraphUser option option" \<comment> \<open>\<open>sharedBy?: { user?: ... }\<close>\<close>
  item_shared :: "string option"             \<comment> \<open>\<open>shared?: { sharedDateTime: string }\<close>\<close>
  thumbnails :: "GraphThumbnail list option"
  item_webUrl :: "string option"

text \<open>
  JavaScript truthiness of a string: every string but the empty one. (A required string
  that a response leaves out is \<open>undefined\<close>, falsy like the empty string.)
\<close>

definition truthy :: "string \<Rightarrow> bool" where
  "truthy s = (s \<noteq> [])"

text \<open>Truthiness of an optional string (\<open>undefined\<close> and \<open>''\<close> are falsy).\<close>

definition truthy_opt :: "string option \<Rightarrow> bool" where
  "truthy_opt v = (case v of None \<Rightarrow> False | Some s \<Rightarrow> truthy s)"

definition isImageMimeType :: "string \<Rightarrow> bool" where
  "isImageMimeType m = prefix ''image/'' m"

definition hasValidSharer :: "GraphDriveItem \<Rightarrow> bool" where
  "hasValidSharer item =
     (case item_sharedBy item of
        None \<Rightarrow> False
      | Some None \<Rightarrow> False
      | Some (Some u) \<Rightarrow>
          truthy (user_displayName u) \<and> (truthy (user_id u) \<or> truthy_opt (email u)))"

definition hasValidPreview :: "GraphDriveItem \<Rightarrow> bool" where
  "hasValidPreview item =
     (case thumbnails item of
        None \<Rightarrow> False
      | Some [] \<Rightarrow> False
      | Some (t # _) \<Rightarrow> truthy_opt (medium t))"

section \<open>Mapping and filtering (src/services/grouping.ts)\<close>

definition filterImagesByMime :: "GraphDriveItem list \<Rightarrow> GraphDriveItem list" where
  "filterImagesByMime items =
     filter (\<lambda>item. case item_file item of
                       None \<Rightarrow> False
                     | Some m \<Rightarrow> truthy m \<and> isImageMimeType m) items"

text \<open>
  \<open>mapToSharedImage\<close> reads the clock for a missing share date
  (\<open>new Date().toISOString()\<close>); the reading is the parameter \<open>now\<close>.
  The non-null assertions of the source (\<open>item.sharedBy!.user!\<close>,
  \<open>item.thumbnails![0].medium!.url\<close>) are reached only behind \<open>hasValidSharer\<close>
  and \<open>hasValidPreview\<close>; the branches they exclude return the same \<open>null\<close>.
\<close>

definition mapToSharedImage :: "string \<Rightarrow> GraphDriveItem \<Rightarrow> SharedImage option" where
  "mapToSharedImage now item =
     (if \<not> truthy (item_name item) \<or> \<not> truthy_opt (item_file item) \<or> \<not> hasValidSharer item
      then None
      else
        (case (item_file item, item_sharedBy item) of
           (Some m, Some (Some sharer)) \<Rightarrow>
             Some \<lparr> img_id = item_id item,
                    img_name = item_name item,
                    mimeType = m,
                    sharedBy = \<lparr> sb_displayName = user_displayName sharer,
                                 sb_identifier =
                                   (case email sharer of
                                      Some e \<Rightarrow> if truthy e then e else user_id sharer
                                    | None \<Rightarrow> user_id sharer) \<rparr>,
                    thumbnailUrl =
                      (if hasValidPreview item
                       then (case thumbnails item of Some (t # _) \<Rightarrow> medium t | _ \<Rightarrow> None)
                       else None),
                    dateShared =
                      (case item_shared item of
                         Some d \<Rightarrow> if truthy d then d else now
                       | None \<Rightarrow> now),
                    webUrl = item_webUrl item \<rparr>
         | _ \<Rightarrow> None))"

text \<open>An item passes the image filter when the filter keeps it.\<close>

definition passesImageFilter :: "GraphDriveItem \<Rightarrow> bool" where
  "passesImageFilter item = (filterImagesByMime [item] = [item])"

text \<open>Two raw items used as concrete inputs below.\<close>

definition item_john :: GraphDriveItem where
  "item_john =
     \<lparr> item_id = ''1'', item_name = ''a.jpg'', item_file = Some ''image/jpeg'',
       item_sharedBy = Some (Some \<lparr> user_displayName = ''John'', user_id = ''j1'',
                                     email = None \<rparr>),
       item_shared = None, thumbnails = None, item_webUrl = None \<rparr>"

definition item_anonymous :: GraphDriveItem where
  "item_anonymous =
     \<lparr> item_id = ''7'', item_name = ''photo1.jpg'', item_file = Some ''image/jpeg'',
       item_sharedBy = Some (Some \<lparr> user_displayName = ''Anonymous User'', user_id = [],
                                     email = None \<rparr>),
       item_shared = None, thumbnails = None, item_webUrl = None \<rparr>"

section \<open>Grouping and disambiguation (src/services/grouping.ts)\<close>

text \<open>
  A JavaScript \<open>Map\<close> iterates in insertion order, so \<open>groups\<close> is an association
  list with one entry per key, new keys at the end. \<open>groups_push\<close> is one round of
  the loop of \<open>groupBySharer\<close>: \<open>has\<close>, \<open>set\<close> when the key is new, \<open>get\<close>, \<open>push\<close>.
\<close>

fun groups_push ::
  "(string \<times> SharedImage list) list \<Rightarrow> SharedImage \<Rightarrow> (string \<times> SharedImage list) list" where
  "groups_push [] img = [(sb_identifier (sharedBy img), [img])]"
| "groups_push ((k, groupImages) # rest) img =
     (if k = sb_identifier (sharedBy img) then (k, groupImages @ [img]) # rest
      else (k, groupImages) # groups_push rest img)"

text \<open>
  Reading \<open>groupImages[0]\<close> of an empty array gives \<open>undefined\<close>, and
  \<open>firstImage.sharedBy\<close> then throws a \<open>TypeError\<close>; the throw is a value here.
\<close>

datatype js_error = TypeError string

definition toGrouping :: "string \<times> SharedImage list \<Rightarrow> js_error + PeopleGrouping" where
  "toGrouping kv =
     (case snd kv of
        [] \<Rightarrow> Inl (TypeError ''Cannot read properties of undefined'')
      | firstImage # _ \<Rightarrow>
          Inr \<lparr> person = \<lparr> identifier = fst kv,
                            displayName = sb_displayName (sharedBy firstImage),
                            imageCount = length (snd kv) \<rparr>,
                 images = snd kv \<rparr>)"

fun toGroupings :: "(string \<times> SharedImage list) list \<Rightarrow> js_error + PeopleGrouping list" where
  "toGroupings [] = Inr []"
| "toGroupings (kv # rest) =
     (case toGrouping kv of
        Inl e \<Rightarrow> Inl e
      | Inr g \<Rightarrow> (case toGroupings rest of Inl e \<Rightarrow> Inl e | Inr gs \<Rightarrow> Inr (g # gs)))"

text \<open>
  \<open>Array.prototype.sort\<close> with a comparator is a stable sort: an element goes before
  the first later element it does not compare greater than.
\<close>

fun insort_by :: "('a \<Rightarrow> 'a \<Rightarrow> int) \<Rightarrow> 'a \<Rightarrow> 'a list \<Rightarrow> 'a list" where
  "insort_by cmp x [] = [x]"
| "insort_by cmp x (y # ys) =
     (if cmp x y \<le> 0 then x # y # ys else y # insort_by cmp x ys)"

definition array_sort :: "('a \<Rightarrow> 'a \<Rightarrow> int) \<Rightarrow> 'a list \<Rightarrow> 'a list" where
  "array_sort cmp xs = foldr (insort_by cmp) xs []"

text \<open>
  \<open>String.prototype.localeCompare\<close> belongs to the JavaScript runtime and depends on
  its locale data; it is the parameter \<open>localeCompare\<close> (negative, zero or positive).
\<close>

definition groupBySharer ::
  "(string \<Rightarrow> string \<Rightarrow> int) \<Rightarrow> SharedImage list \<Rightarrow> js_error + PeopleGrouping list" where
  "groupBySharer localeCompare imgs =
     (case toGroupings (foldl groups_push [] imgs) of
        Inl e \<Rightarrow> Inl e
      | Inr gs \<Rightarrow>
          Inr (array_sort
                 (\<lambda>a b. localeCompare (displayName (person a)) (displayName (person b))) gs))"

text \<open>A comparator the sort can rely on: total and transitive.\<close>

definition consistent_comparator :: "(string \<Rightarrow> string \<Rightarrow> int) \<Rightarrow> bool" where
  "consistent_comparator cmp =
     ((\<forall>a b. cmp a b \<le> 0 \<or> cmp b a \<le> 0) \<and>
      (\<forall>a b c. cmp a b \<le> 0 \<longrightarrow> cmp b c \<le> 0 \<longrightarrow> cmp a c \<le> 0))"

text \<open>One such comparator, by UTF-16 code unit, for concrete runs.\<close>

fun codeUnitCompare :: "string \<Rightarrow> string \<Rightarrow> int" where
  "codeUnitCompare [] [] = 0"
| "codeUnitCompare [] (y # ys) = - 1"
| "codeUnitCompare (x # xs) [] = 1"
| "codeUnitCompare (x # xs) (y # ys) =
     (if (of_char x :: nat) < of_char y then - 1
      else if (of_char y :: nat) < of_char x then 1
      else codeUnitCompare xs ys)"

text \<open>The counting loop of \<open>disambiguateDisplayNames\<close> over its \<open>nameCount\<close> map.\<close>

fun count_names :: "(string \<rightharpoonup> nat) \<Rightarrow> PeopleGrouping list \<Rightarrow> (string \<rightharpoonup> nat)" where
  "count_names nameCount [] = nameCount"
| "count_names nameCount (g # rest) =
     count_names
       (nameCount(displayName (person g) \<mapsto>
          (case nameCount (displayName (person g)) of None \<Rightarrow> 0 | Some c \<Rightarrow> c) + 1))
       rest"

definition isDuplicate :: "(string \<rightharpoonup> nat) \<Rightarrow> Person \<Rightarrow> bool" where
  "isDuplicate nameCount p =
     (case nameCount (displayName p) of None \<Rightarrow> False | Some c \<Rightarrow> 1 < c)"

definition disambiguateDisplayNames :: "PeopleGrouping list \<Rightarrow> PeopleGrouping list" where
  "disambiguateDisplayNames gs =
     (let nameCount = count_names Map.empty gs
      in map (\<lambda>g. if isDuplicate nameCount (person g)
                   then g\<lparr> person := (person g)
                            \<lparr> displayName :=
                                displayName (person g) @ '' ('' @ identifier (person g) @ '')'' \<rparr> \<rparr>
                   else g) gs)"

text \<open>
  The mapping loop of \<open>processGraphItems\<close>. Each call of \<open>mapToSharedImage\<close> may read
  the clock; \<open>clock i\<close> is the reading in round \<open>i\<close> of the loop.
\<close>

fun map_items ::
  "(nat \<Rightarrow> string) \<Rightarrow> nat \<Rightarrow> GraphDriveItem list \<Rightarrow> SharedImage list \<Rightarrow> string list \<Rightarrow>
   SharedImage list \<times> string list" where
  "map_items clock i [] sharedImages errs = (sharedImages, errs)"
| "map_items clock i (item # rest) sharedImages errs =
     (case mapToSharedImage (clock i) item of
        Some mapped \<Rightarrow> map_items clock (Suc i) rest (sharedImages @ [mapped]) errs
      | None \<Rightarrow>
          map_items clock (Suc i) rest sharedImages
            (errs @ [''Failed to process item: '' @ item_id item]))"

record ProcessResult =
  groupings :: "PeopleGrouping list"
  allPeople :: "Person list"
  totalImages :: nat
  errors :: "string list"

fun error_text :: "js_error \<Rightarrow> string" where
  "error_text (TypeError msg) = ''TypeError: '' @ msg"

definition processGraphItems ::
  "(nat \<Rightarrow> string) \<Rightarrow> (string \<Rightarrow> string \<Rightarrow> int) \<Rightarrow> GraphDriveItem list \<Rightarrow> ProcessResult" where
  "processGraphItems clock localeCompare rawItems =
     (let imageItems = filterImagesByMime rawItems;
          mapped = map_items clock 0 imageItems [] []
      in case groupBySharer localeCompare (fst mapped) of
           Inl e \<Rightarrow>
             \<lparr> groupings = [], allPeople = [], totalImages = 0,
               errors = snd mapped @ [''Processing failed: '' @ error_text e] \<rparr>
         | Inr rawGroupings \<Rightarrow>
             (let gs = disambiguateDisplayNames rawGroupings
              in \<lparr> groupings = gs, allPeople = map person gs,
                   totalImages = length (fst mapped), errors = snd mapped \<rparr>))"

section \<open>Selection state engine (src/state/selection.tsx)\<close>

datatype SelectionAction =
    SET_LOADING bool
  | SET_ERROR "string option"
  | SET_DATA "Person list" "SharedImage list"
  | SELECT_PERSON "Person option"
  | REFRESH_DATA

definition initialState :: SelectionState where
  "initialState =
     \<lparr> selectedPerson = None, displayImages = [], availablePeople = [],
       isLoading = False, error = None \<rparr>"

definition getAllImagesFromPeople :: "Person list \<Rightarrow> SharedImage list" where
  "getAllImagesFromPeople people = []"

fun selectionReducer :: "SelectionState \<Rightarrow> SelectionAction \<Rightarrow> SelectionState" where
  "selectionReducer state (SET_LOADING payload) = state\<lparr> isLoading := payload \<rparr>"
| "selectionReducer state (SET_ERROR payload) =
     state\<lparr> error := payload, isLoading := False \<rparr>"
| "selectionReducer state (SET_DATA people imgs) =
     (let filteredImages =
            (case selectedPerson state of
               Some currentSelection \<Rightarrow>
                 filter (\<lambda>img. sb_identifier (sharedBy img) = identifier currentSelection) imgs
             | None \<Rightarrow> imgs)
      in state\<lparr> availablePeople := people, displayImages := filteredImages,
                isLoading := False, error := None \<rparr>)"
| "selectionReducer state (SELECT_PERSON payload) =
     (let allImages = getAllImagesFromPeople (availablePeople state);
          shown =
            (case payload of
               Some p \<Rightarrow> filter (\<lambda>img. sb_identifier (sharedBy img) = identifier p) allImages
             | None \<Rightarrow> allImages)
      in state\<lparr> selectedPerson := payload, displayImages := shown \<rparr>)"
| "selectionReducer state REFRESH_DATA = state\<lparr> isLoading := True, error := None \<rparr>"

text \<open>\<open>dispatch\<close> of several actions in a row: the reducer folds over them.\<close>

definition dispatch_all :: "SelectionState \<Rightarrow> SelectionAction list \<Rightarrow> SelectionState" where
  "dispatch_all state actions = foldl selectionReducer state actions"

text \<open>
  \<open>await fetchSharedItems()\<close> either resolves with \<open>{ items, error }\<close> or rejects;
  a rejection carries the message of an \<open>Error\<close>, or nothing for any other thrown value.
\<close>

datatype FetchOutcome =
    Resolved "GraphDriveItem list" "string option"
  | Rejected "string option"

text \<open>
  \<open>loadData\<close> in its two halves: what it dispatches before the \<open>await\<close>, and what it
  dispatches once the fetch has settled.
\<close>

definition loadData_issue :: "SelectionAction list" where
  "loadData_issue = [SET_LOADING True]"

definition loadData_settle ::
  "(nat \<Rightarrow> string) \<Rightarrow> (string \<Rightarrow> string \<Rightarrow> int) \<Rightarrow> FetchOutcome \<Rightarrow> SelectionAction list" where
  "loadData_settle clock localeCompare outcome =
     (case outcome of
        Resolved rawItems err \<Rightarrow>
          (if truthy_opt err then [SET_ERROR err]
           else
             (let processed = processGraphItems clock localeCompare rawItems
              in [SET_DATA (allPeople processed) (concat (map images (groupings processed)))]))
      | Rejected msg \<Rightarrow>
          [SET_ERROR (Some (case msg of Some m \<Rightarrow> m | None \<Rightarrow> ''Failed to load data''))])"

definition refreshData_issue :: "SelectionAction list" where
  "refreshData_issue = REFRESH_DATA # loadData_issue"

text \<open>
  The engine as a machine over the events the single JavaScript thread runs one at a
  time: a load or a refresh is issued (up to its \<open>await\<close>), a pending fetch settles,
  the user selects a person. The number names the request in statements about traces;
  the source keeps no such number.
\<close>

datatype Event =
    Load nat
  | Refresh nat
  | Settled nat FetchOutcome
  | SelectPerson "Person option"

fun step ::
  "(nat \<Rightarrow> string) \<Rightarrow> (string \<Rightarrow> string \<Rightarrow> int) \<Rightarrow> SelectionState \<Rightarrow> Event \<Rightarrow> SelectionState" where
  "step clock lc state (Load rid) = dispatch_all state loadData_issue"
| "step clock lc state (Refresh rid) = dispatch_all state refreshData_issue"
| "step clock lc state (Settled rid outcome) =
     dispatch_all state (loadData_settle clock lc outcome)"
| "step clock lc state (SelectPerson p) = selectionReducer state (SELECT_PERSON p)"

definition run ::
  "(nat \<Rightarrow> string) \<Rightarrow> (string \<Rightarrow> string \<Rightarrow> int) \<Rightarrow> SelectionState \<Rightarrow> Event list \<Rightarrow> SelectionState" where
  "run clock lc state events = foldl (step clock lc) state events"

section \<open>Notions used in the statements and proofs\<close>

abbreviation sid :: "SharedImage \<Rightarrow> string" where
  "sid img \<equiv> sb_identifier (sharedBy img)"

abbreviation dn :: "PeopleGrouping \<Rightarrow> string" where
  "dn g \<equiv> displayName (person g)"

abbreviation idp :: "PeopleGrouping \<Rightarrow> string" where
  "idp g \<equiv> identifier (person g)"

text \<open>
  The loop invariant of \<open>groupBySharer\<close> after the images \<open>xs\<close>: one entry per
  identifier seen, holding the images of that identifier in input order.
\<close>

definition groups_inv :: "(string \<times> SharedImage list) list \<Rightarrow> SharedImage list \<Rightarrow> bool" where
  "groups_inv g xs = (distinct (map fst g) \<and> fst ` set g = sid ` set xs \<and>
      (\<forall>kv \<in> set g. snd kv = filter (\<lambda>i. sid i = fst kv) xs))"

text \<open>The grouping built from a map entry whose array is not empty.\<close>

definition mk_grouping :: "string \<times> SharedImage list \<Rightarrow> PeopleGrouping" where
  "mk_grouping kv = \<lparr> person = \<lparr> identifier = fst kv,
                            displayName = sb_displayName (sharedBy (hd (snd kv))),
                            imageCount = length (snd kv) \<rparr>,
                 images = snd kv \<rparr>"

text \<open>The rewrite \<open>disambiguateDisplayNames\<close> applies to a duplicate name.\<close>

definition rename :: "PeopleGrouping \<Rightarrow> PeopleGrouping" where
  "rename g = g\<lparr> person := (person g)
                 \<lparr> displayName := displayName (person g) @ '' ('' @ identifier (person g) @ '')'' \<rparr> \<rparr>"

text \<open>
  The specification's notion of an ambiguous name: the display name is shared with
  another, distinct identifier of the list.
\<close>

definition spec_ambiguous :: "PeopleGrouping list \<Rightarrow> PeopleGrouping \<Rightarrow> bool" where
  "spec_ambiguous gs g =
     (\<exists>h \<in> set gs. displayName (person h) = displayName (person g) \<and>
                    identifier (person h) \<noteq> identifier (person g))"

text \<open>Grouping lists given directly, as the repository's contract test gives them.\<close>

definition grouping_of :: "string \<Rightarrow> string \<Rightarrow> PeopleGrouping" where
  "grouping_of name ident =
     \<lparr> person = \<lparr> identifier = ident, displayName = name, imageCount = 0 \<rparr>, images = [] \<rparr>"

definition gs_sam :: "PeopleGrouping list" where
  "gs_sam = [grouping_of ''Sam'' ''s1'', grouping_of ''Sam'' ''s2'']"

definition gs_clash :: "PeopleGrouping list" where
  "gs_clash = [grouping_of ''Sam'' ''s1'', grouping_of ''Sam'' ''s2'',
               grouping_of ''Sam (s1)'' ''s3'']"

text \<open>Concrete raw items, the images they map to, and the people they belong to.\<close>

definition fixed_clock :: "nat \<Rightarrow> string" where
  "fixed_clock i = ''2025-09-16T00:00:00Z''"

definition item_pdf :: GraphDriveItem where
  "item_pdf =
     \<lparr> item_id = ''2'', item_name = ''b.pdf'', item_file = Some ''application/pdf'',
       item_sharedBy = Some (Some \<lparr> user_displayName = ''John'', user_id = ''j1'',
                                     email = None \<rparr>),
       item_shared = None, thumbnails = None, item_webUrl = None \<rparr>"

definition item_sam :: GraphDriveItem where
  "item_sam =
     \<lparr> item_id = ''3'', item_name = ''c.png'', item_file = Some ''image/png'',
       item_sharedBy = Some (Some \<lparr> user_displayName = ''Sam'', user_id = ''s1'',
                                     email = None \<rparr>),
       item_shared = None, thumbnails = None, item_webUrl = None \<rparr>"

definition item_nomime :: GraphDriveItem where
  "item_nomime =
     \<lparr> item_id = ''4'', item_name = ''d.png'', item_file = None,
       item_sharedBy = Some (Some \<lparr> user_displayName = ''John'', user_id = ''j1'',
                                     email = None \<rparr>),
       item_shared = None, thumbnails = None, item_webUrl = None \<rparr>"

definition item_noname :: GraphDriveItem where
  "item_noname =
     \<lparr> item_id = ''5'', item_name = [], item_file = Some ''image/png'',
       item_sharedBy = Some (Some \<lparr> user_displayName = ''John'', user_id = ''j1'',
                                     email = None \<rparr>),
       item_shared = None, thumbnails = None, item_webUrl = None \<rparr>"

definition image_john :: SharedImage where
  "image_john =
     \<lparr> img_id = ''1'', img_name = ''a.jpg'', mimeType = ''image/jpeg'',
       sharedBy = \<lparr> sb_displayName = ''John'', sb_identifier = ''j1'' \<rparr>,
       thumbnailUrl = None, dateShared = ''2025-09-16T00:00:00Z'', webUrl = None \<rparr>"

definition image_sam :: SharedImage where
  "image_sam =
     \<lparr> img_id = ''3'', img_name = ''c.png'', mimeType = ''image/png'',
       sharedBy = \<lparr> sb_displayName = ''Sam'', sb_identifier = ''s1'' \<rparr>,
       thumbnailUrl = None, dateShared = ''2025-09-16T00:00:00Z'', webUrl = None \<rparr>"

definition person_john :: Person where
  "person_john = \<lparr> identifier = ''j1'', displayName = ''John'', imageCount = 1 \<rparr>"

definition person_sam :: Person where
  "person_sam = \<lparr> identifier = ''s1'', displayName = ''Sam'', imageCount = 1 \<rparr>"

text \<open>The three checks of \<open>mapToSharedImage\<close> together.\<close>

definition mappable :: "GraphDriveItem \<Rightarrow> bool" where
  "mappable item =
     (truthy (item_name item) \<and> truthy_opt (item_file item) \<and> hasValidSharer item)"

text \<open>A fetch that failed: it resolved with an error text, or it rejected.\<close>

definition fetch_failed :: "FetchOutcome \<Rightarrow> bool" where
  "fetch_failed outcome =
     (case outcome of Resolved rawItems err \<Rightarrow> truthy_opt err | Rejected msg \<Rightarrow> True)"

text \<open>
  The state after a first successful load of two images, and the state after John
  has then been selected.
\<close>

definition loaded_state :: SelectionState where
  "loaded_state =
     run fixed_clock codeUnitCompare initialState
       [Load 0, Settled 0 (Resolved [item_john, item_sam] None)]"

definition john_selected_state :: SelectionState where
  "john_selected_state =
     run fixed_clock codeUnitCompare loaded_state [SelectPerson (Some person_john)]"

section \<open>Mapping validity\<close>

lemma passesImageFilter_iff:
  "passesImageFilter item = (\<exists>m. item_file item = Some m \<and> truthy m \<and> isImageMimeType m)"
  by (auto simp: passesImageFilter_def filterImagesByMime_def split: option.splits)

lemma hasValidSharer_iff:
  "hasValidSharer item =
     (\<exists>u. item_sharedBy item = Some (Some u) \<and> truthy (user_displayName u) \<and>
          (truthy (user_id u) \<or> truthy_opt (email u)))"
  by (simp add: hasValidSharer_def split: option.splits)

text \<open>
  C3 (as stated): a filtered item maps iff its name is present and its sharer has a
  non-empty identifier \<^emph>\<open>or\<close> a display name. The item \<open>item_anonymous\<close> passes the
  image filter, has a name and a sharer with a display name (and an empty identifier),
  and \<open>mapToSharedImage\<close> still returns \<open>null\<close>: \<open>hasValidSharer\<close> asks for the
  display name \<^emph>\<open>and\<close> an identifier.
\<close>

theorem C3_display_name_only_counterexample:
  "passesImageFilter item_anonymous \<and> truthy (item_name item_anonymous) \<and>
   item_sharedBy item_anonymous =
     Some (Some \<lparr> user_displayName = ''Anonymous User'', user_id = [], email = None \<rparr>) \<and>
   truthy ''Anonymous User'' \<and>
   mapToSharedImage ''2025-09-16T00:00:00Z'' item_anonymous = None"
  by (simp add: passesImageFilter_iff item_anonymous_def truthy_def truthy_opt_def
      isImageMimeType_def mapToSharedImage_def hasValidSharer_def)

text \<open>
  C3 (amended): for every raw item that passes the image filter, mapping succeeds if and
  only if the item's name is non-empty and its sharer has a non-empty display name and a
  non-empty id or email; the mapped image then carries the display name, and the email
  when it is non-empty, the id otherwise, as identifier. In every other case, a sharer
  with a display name and no identifier included, the result is \<open>null\<close>.
\<close>

theorem C3_mapToSharedImage_valid_iff:
  assumes "passesImageFilter item"
  shows "(case mapToSharedImage now item of
            None \<Rightarrow>
              \<not> (truthy (item_name item) \<and>
                 (\<exists>u. item_sharedBy item = Some (Some u) \<and> truthy (user_displayName u) \<and>
                      (truthy (user_id u) \<or> truthy_opt (email u))))
          | Some img \<Rightarrow>
              truthy (item_name item) \<and>
              (\<exists>u. item_sharedBy item = Some (Some u) \<and> truthy (user_displayName u) \<and>
                   (truthy (user_id u) \<or> truthy_opt (email u)) \<and>
                   sb_displayName (sharedBy img) = user_displayName u \<and>
                   sb_identifier (sharedBy img) =
                     (case email u of
                        Some e \<Rightarrow> if truthy e then e else user_id u
                      | None \<Rightarrow> user_id u)))"
proof -
  from assms obtain m where m: "item_file item = Some m" "truthy m"
    by (auto simp: passesImageFilter_iff)
  show ?thesis
  proof (cases "truthy (item_name item) \<and> hasValidSharer item")
    case True
    then obtain u where u: "item_sharedBy item = Some (Some u)"
      "truthy (user_displayName u)" "truthy (user_id u) \<or> truthy_opt (email u)"
      by (auto simp: hasValidSharer_iff)
    with True m show ?thesis
      by (simp add: mapToSharedImage_def truthy_opt_def)
  next
    case False
    then have "mapToSharedImage now item = None"
      by (auto simp: mapToSharedImage_def)
    with False show ?thesis
      by (simp add: hasValidSharer_iff)
  qed
qed

theorem C3_mapToSharedImage_valid_iff_witness:
  "passesImageFilter item_john \<and>
   (\<exists>img. mapToSharedImage ''2025-09-16T00:00:00Z'' item_john = Some img \<and>
      sb_displayName (sharedBy img) = ''John'' \<and> sb_identifier (sharedBy img) = ''j1'')"
proof -
  have p: "passesImageFilter item_john"
    by (simp add: passesImageFilter_iff item_john_def truthy_def isImageMimeType_def)
  have s: "item_sharedBy item_john =
      Some (Some \<lparr> user_displayName = ''John'', user_id = ''j1'', email = None \<rparr>)"
    "item_name item_john = ''a.jpg''"
    by (simp_all add: item_john_def)
  show ?thesis
    using p C3_mapToSharedImage_valid_iff [OF p, of "''2025-09-16T00:00:00Z''"]
    by (auto simp: s truthy_opt_def truthy_def split: option.splits)
qed

section \<open>Grouping by sharer\<close>

lemma groups_push_keys: "fst ` set (groups_push g x) = insert (sid x) (fst ` set g)"
  by (induction g x rule: groups_push.induct) auto

lemma groups_push_distinct:
  "distinct (map fst g) \<Longrightarrow> distinct (map fst (groups_push g x))"
proof (induction g x rule: groups_push.induct)
  case (1 img)
  then show ?case by simp
next
  case (2 k groupImages rest img)
  then show ?case using groups_push_keys [of rest img] by (auto simp: image_iff)
qed

lemma groups_push_entry:
  assumes "distinct (map fst g)" "(k, v) \<in> set (groups_push g x)"
  shows "(k \<noteq> sid x \<and> (k, v) \<in> set g) \<or>
         (k = sid x \<and> (\<exists>v0. (k, v0) \<in> set g \<and> v = v0 @ [x])) \<or>
         (k = sid x \<and> k \<notin> fst ` set g \<and> v = [x])"
  using assms
proof (induction g x rule: groups_push.induct)
  case (1 img)
  then show ?case by simp
next
  case (2 k' groupImages rest img)
  then show ?case by (auto simp: image_iff split: if_splits)
qed

lemma groups_push_inv:
  assumes "groups_inv g xs"
  shows "groups_inv (groups_push g x) (xs @ [x])"
proof -
  have d: "distinct (map fst g)" and keys: "fst ` set g = sid ` set xs"
    and ent: "\<And>k v. (k, v) \<in> set g \<Longrightarrow> v = filter (\<lambda>i. sid i = k) xs"
    using assms by (auto simp: groups_inv_def)
  have "snd kv = filter (\<lambda>i. sid i = fst kv) (xs @ [x])" if "kv \<in> set (groups_push g x)" for kv
  proof -
    obtain k v where kv: "kv = (k, v)" by (cases kv)
    from groups_push_entry [OF d that [unfolded kv]]
    consider "k \<noteq> sid x" "(k, v) \<in> set g"
      | v0 where "k = sid x" "(k, v0) \<in> set g" "v = v0 @ [x]"
      | "k = sid x" "k \<notin> fst ` set g" "v = [x]"
      by blast
    then show ?thesis
    proof cases
      case 1
      then show ?thesis using ent [of k v] by (simp add: kv)
    next
      case 2
      then show ?thesis using ent [of k v0] by (simp add: kv)
    next
      case 3
      then have "k \<notin> sid ` set xs" by (simp add: keys)
      then have "filter (\<lambda>i. sid i = k) xs = []"
        by (auto simp: filter_empty_conv image_iff)
      with 3 show ?thesis by (simp add: kv)
    qed
  qed
  then show ?thesis
    using groups_push_distinct [OF d, of x] groups_push_keys [of g x] keys
    by (simp add: groups_inv_def)
qed

lemma foldl_groups_push_inv:
  "groups_inv g xs \<Longrightarrow> groups_inv (foldl groups_push g ys) (xs @ ys)"
proof (induction ys arbitrary: g xs)
  case Nil
  then show ?case by simp
next
  case (Cons y ys)
  from Cons.IH [OF groups_push_inv [OF Cons.prems, of y]] show ?case by simp
qed

lemma build_groups_inv: "groups_inv (foldl groups_push [] imgs) imgs"
  using foldl_groups_push_inv [of "[]" "[]" imgs] by (simp add: groups_inv_def)

lemma toGroupings_nonempty:
  "\<forall>kv \<in> set g. snd kv \<noteq> [] \<Longrightarrow> toGroupings g = Inr (map mk_grouping g)"
  by (induction g) (auto simp: toGrouping_def mk_grouping_def split: list.splits)

lemma groups_inv_nonempty: "groups_inv g xs \<Longrightarrow> kv \<in> set g \<Longrightarrow> snd kv \<noteq> []"
proof -
  assume a: "groups_inv g xs" "kv \<in> set g"
  then have "fst kv \<in> sid ` set xs" by (auto simp: groups_inv_def)
  then have "filter (\<lambda>i. sid i = fst kv) xs \<noteq> []" by (auto simp: filter_empty_conv)
  with a show ?thesis by (auto simp: groups_inv_def)
qed

lemma set_insort_by: "set (insort_by cmp x xs) = insert x (set xs)"
  by (induction xs) auto

lemma set_array_sort: "set (array_sort cmp xs) = set xs"
  by (induction xs) (auto simp: array_sort_def set_insort_by)

lemma distinct_map_insort_by:
  "distinct (map f (insort_by cmp x xs)) = distinct (map f (x # xs))"
  by (induction xs) (auto simp: set_insort_by)

lemma distinct_map_array_sort:
  "distinct (map f (array_sort cmp xs)) = distinct (map f xs)"
  by (induction xs) (auto simp: array_sort_def distinct_map_insort_by set_array_sort [unfolded array_sort_def])

lemma sorted_insort_by:
  assumes tot: "\<And>a b. cmp a b \<le> 0 \<or> cmp b a \<le> 0"
    and trans: "\<And>a b c. cmp a b \<le> 0 \<Longrightarrow> cmp b c \<le> 0 \<Longrightarrow> cmp a c \<le> 0"
  shows "sorted_wrt (\<lambda>a b. cmp a b \<le> 0) xs \<Longrightarrow> sorted_wrt (\<lambda>a b. cmp a b \<le> 0) (insort_by cmp x xs)"
proof (induction xs)
  case Nil
  then show ?case by simp
next
  case (Cons y ys)
  show ?case
  proof (cases "cmp x y \<le> 0")
    case True
    with Cons.prems trans show ?thesis by auto
  next
    case False
    with tot [of x y] have "cmp y x \<le> 0" by simp
    with False Cons show ?thesis by (auto simp: set_insort_by)
  qed
qed

lemma sorted_array_sort:
  assumes tot: "\<And>a b. cmp a b \<le> 0 \<or> cmp b a \<le> 0"
    and trans: "\<And>a b c. cmp a b \<le> 0 \<Longrightarrow> cmp b c \<le> 0 \<Longrightarrow> cmp a c \<le> 0"
  shows "sorted_wrt (\<lambda>a b. cmp a b \<le> 0) (array_sort cmp xs)"
proof (induction xs)
  case Nil
  then show ?case by (simp add: array_sort_def)
next
  case (Cons x xs)
  then show ?case
    using sorted_insort_by [of cmp "array_sort cmp xs" x, OF tot trans]
    by (simp add: array_sort_def)
qed

lemma groupBySharer_eq:
  "groupBySharer lc imgs =
     Inr (array_sort (\<lambda>a b. lc (displayName (person a)) (displayName (person b)))
            (map mk_grouping (foldl groups_push [] imgs)))"
  using toGroupings_nonempty [of "foldl groups_push [] imgs"]
    groups_inv_nonempty [OF build_groups_inv [of imgs]]
  by (simp add: groupBySharer_def)

lemma mk_grouping_props:
  assumes "groups_inv g xs" "kv \<in> set g"
  shows "images (mk_grouping kv) =
           filter (\<lambda>i. sid i = identifier (person (mk_grouping kv))) xs"
    and "images (mk_grouping kv) \<noteq> []"
    and "displayName (person (mk_grouping kv)) =
           sb_displayName (sharedBy (hd (images (mk_grouping kv))))"
    and "imageCount (person (mk_grouping kv)) = length (images (mk_grouping kv))"
  using assms groups_inv_nonempty [OF assms]
  by (auto simp: mk_grouping_def groups_inv_def)

lemma mk_grouping_ids:
  "map (identifier \<circ> person) (map mk_grouping g) = map fst g"
  by (simp add: mk_grouping_def comp_def)

subsection \<open>A comparator for concrete runs\<close>

lemma codeUnitCompare_total: "codeUnitCompare a b \<le> 0 \<or> codeUnitCompare b a \<le> 0"
proof (induction a b rule: codeUnitCompare.induct)
  case (4 x xs y ys)
  then show ?case by (simp split: if_splits)
qed simp_all

lemma codeUnitCompare_trans:
  "codeUnitCompare a b \<le> 0 \<Longrightarrow> codeUnitCompare b c \<le> 0 \<Longrightarrow> codeUnitCompare a c \<le> 0"
proof (induction a b arbitrary: c rule: codeUnitCompare.induct)
  case 1
  then show ?case by simp
next
  case (2 y ys)
  then show ?case by (cases c) simp_all
next
  case (3 x xs)
  then show ?case by simp
next
  case (4 x xs y ys)
  show ?case
  proof (cases c)
    case Nil
    with 4(3) show ?thesis by simp
  next
    case (Cons z zs)
    show ?thesis
    proof (cases "(of_char x :: nat) < of_char y")
      case True
      with 4(3) have "(of_char y :: nat) \<le> of_char z"
        by (simp add: Cons split: if_splits)
      with True show ?thesis by (simp add: Cons)
    next
      case xy: False
      with 4(2) have yx: "\<not> (of_char y :: nat) < of_char x" and ab: "codeUnitCompare xs ys \<le> 0"
        by (simp_all split: if_splits)
      show ?thesis
      proof (cases "(of_char y :: nat) < of_char z")
        case True
        with xy yx show ?thesis by (simp add: Cons)
      next
        case yz: False
        with 4(3) have zy: "\<not> (of_char z :: nat) < of_char y" and bc: "codeUnitCompare ys zs \<le> 0"
          by (simp_all add: Cons split: if_splits)
        from 4(1) [OF xy yx ab bc] xy yx yz zy show ?thesis by (simp add: Cons)
      qed
    qed
  qed
qed

lemma codeUnitCompare_consistent: "consistent_comparator codeUnitCompare"
  unfolding consistent_comparator_def
  using codeUnitCompare_total codeUnitCompare_trans by blast

lemma sorted_groupings_props:
  fixes cmp imgs
  defines "gs \<equiv> array_sort cmp (map mk_grouping (foldl groups_push [] imgs))"
  shows "distinct (map idp gs)"
    and "idp ` set gs = sid ` set imgs"
    and "\<And>g. g \<in> set gs \<Longrightarrow>
           images g = filter (\<lambda>img. sid img = idp g) imgs \<and> images g \<noteq> [] \<and>
           dn g = sb_displayName (sharedBy (hd (images g))) \<and>
           imageCount (person g) = length (images g)"
proof -
  let ?g = "foldl groups_push [] imgs"
  have inv: "groups_inv ?g imgs" by (rule build_groups_inv)
  have ids: "map idp (map mk_grouping ?g) = map fst ?g"
    using mk_grouping_ids [of ?g] by (simp add: comp_def)
  show "distinct (map idp gs)"
    using inv unfolding gs_def distinct_map_array_sort ids by (simp add: groups_inv_def)
  have "idp ` set gs = set (map idp (map mk_grouping ?g))"
    unfolding gs_def set_array_sort by (simp only: set_map)
  also have "\<dots> = fst ` set ?g" by (simp only: ids set_map)
  also have "\<dots> = sid ` set imgs" using inv by (simp add: groups_inv_def)
  finally show "idp ` set gs = sid ` set imgs" .
  fix g assume "g \<in> set gs"
  then obtain kv where kv: "kv \<in> set ?g" "g = mk_grouping kv"
    by (auto simp: gs_def set_array_sort)
  show "images g = filter (\<lambda>img. sid img = idp g) imgs \<and> images g \<noteq> [] \<and>
           dn g = sb_displayName (sharedBy (hd (images g))) \<and>
           imageCount (person g) = length (images g)"
    unfolding kv(2) by (intro conjI mk_grouping_props [OF inv kv(1)])
qed

text \<open>
  C4: for every list of images, \<open>groupBySharer\<close> returns (it never throws) one grouping
  per distinct \<open>sharedBy.identifier\<close>; a grouping holds exactly the images of its
  identifier, in input order, whatever their display names are; its \<open>displayName\<close> is
  that of its first image and its \<open>imageCount\<close> their number; and the groupings are in
  ascending order of \<open>displayName\<close> under the locale's comparison, for any comparison
  that is total and transitive.
\<close>

theorem C4_groupBySharer:
  assumes "consistent_comparator localeCompare"
  shows "\<exists>gs. groupBySharer localeCompare imgs = Inr gs \<and>
           distinct (map (identifier \<circ> person) gs) \<and>
           set (map (identifier \<circ> person) gs) = set (map (sb_identifier \<circ> sharedBy) imgs) \<and>
           (\<forall>g \<in> set gs.
              images g =
                filter (\<lambda>img. sb_identifier (sharedBy img) = identifier (person g)) imgs \<and>
              images g \<noteq> [] \<and>
              displayName (person g) = sb_displayName (sharedBy (hd (images g))) \<and>
              imageCount (person g) = length (images g)) \<and>
           sorted_wrt (\<lambda>a b. localeCompare (displayName (person a)) (displayName (person b)) \<le> 0) gs"
proof -
  let ?cmp = "\<lambda>a b. localeCompare (displayName (person a)) (displayName (person b))"
  let ?gs = "array_sort ?cmp (map mk_grouping (foldl groups_push [] imgs))"
  have tot: "?cmp a b \<le> 0 \<or> ?cmp b a \<le> 0" for a b
    using assms by (simp add: consistent_comparator_def)
  have trans: "?cmp a c \<le> 0" if "?cmp a b \<le> 0" "?cmp b c \<le> 0" for a b c
    using assms that unfolding consistent_comparator_def by blast
  have 1: "groupBySharer localeCompare imgs = Inr ?gs" by (rule groupBySharer_eq)
  have 2: "distinct (map (identifier \<circ> person) ?gs)"
    using sorted_groupings_props(1) [of ?cmp imgs] by (simp add: comp_def)
  have 3: "set (map (identifier \<circ> person) ?gs) = set (map (sb_identifier \<circ> sharedBy) imgs)"
    using sorted_groupings_props(2) [of ?cmp imgs] by (simp add: image_comp comp_def)
  have 4: "\<forall>g \<in> set ?gs.
              images g =
                filter (\<lambda>img. sb_identifier (sharedBy img) = identifier (person g)) imgs \<and>
              images g \<noteq> [] \<and>
              displayName (person g) = sb_displayName (sharedBy (hd (images g))) \<and>
              imageCount (person g) = length (images g)"
    using sorted_groupings_props(3) [of _ ?cmp imgs] by blast
  have 5: "sorted_wrt (\<lambda>a b. ?cmp a b \<le> 0) ?gs"
    by (rule sorted_array_sort [of ?cmp, OF tot trans])
  show ?thesis by (intro exI [of _ ?gs] conjI 1 2 3 4 5)
qed

theorem C4_groupBySharer_witness:
  "consistent_comparator codeUnitCompare \<and>
   (\<exists>gs. groupBySharer codeUnitCompare [image_sam, image_john] = Inr gs \<and>
      map (identifier \<circ> person) gs = [''j1'', ''s1''] \<and>
      map (displayName \<circ> person) gs = [''John'', ''Sam''] \<and>
      map images gs = [[image_john], [image_sam]] \<and>
      sorted_wrt (\<lambda>a b. codeUnitCompare (displayName (person a)) (displayName (person b)) \<le> 0) gs)"
proof -
  have c: "consistent_comparator codeUnitCompare" by (rule codeUnitCompare_consistent)
  from C4_groupBySharer [OF c, of "[image_sam, image_john]"]
  obtain gs where gs: "groupBySharer codeUnitCompare [image_sam, image_john] = Inr gs"
    and s: "sorted_wrt (\<lambda>a b. codeUnitCompare (displayName (person a)) (displayName (person b)) \<le> 0) gs"
    by (elim exE conjE)
  have v: "groupBySharer codeUnitCompare [image_sam, image_john] =
      Inr [\<lparr> person = person_john, images = [image_john] \<rparr>,
           \<lparr> person = person_sam, images = [image_sam] \<rparr>]"
    by (simp add: groupBySharer_def toGrouping_def array_sort_def image_sam_def image_john_def
        person_john_def person_sam_def)
  from gs v have e: "gs = [\<lparr> person = person_john, images = [image_john] \<rparr>,
           \<lparr> person = person_sam, images = [image_sam] \<rparr>]" by simp
  have n: "map (identifier \<circ> person) gs = [''j1'', ''s1'']"
    "map (displayName \<circ> person) gs = [''John'', ''Sam'']"
    "map images gs = [[image_john], [image_sam]]"
    unfolding e by (simp_all add: person_john_def person_sam_def)
  show ?thesis by (intro conjI exI [of _ gs] c gs s n)
qed

section \<open>Disambiguation of display names\<close>

lemma filter_key_empty: "a \<notin> f ` set xs \<Longrightarrow> filter (\<lambda>y. f y = a) xs = []"
  by (induction xs) auto

lemma filter_key_nonempty: "a \<in> f ` set xs \<Longrightarrow> filter (\<lambda>y. f y = a) xs \<noteq> []"
  by (induction xs) auto

lemma count_names_eq:
  "count_names m gs n =
     (if n \<in> dn ` set gs
      then Some ((case m n of None \<Rightarrow> 0 | Some c \<Rightarrow> c) + length (filter (\<lambda>g. dn g = n) gs))
      else m n)"
proof (induction gs arbitrary: m)
  case Nil
  then show ?case by simp
next
  case (Cons g gs)
  show ?case
  proof (cases "n \<in> dn ` set gs")
    case True
    then show ?thesis by (simp add: Cons.IH split: option.splits)
  next
    case False
    then have "filter (\<lambda>h. dn h = n) gs = []" by (rule filter_key_empty)
    with False show ?thesis by (auto simp: Cons.IH split: option.splits)
  qed
qed

lemma isDuplicate_count:
  "isDuplicate (count_names Map.empty gs) p =
     (1 < length (filter (\<lambda>g. dn g = displayName p) gs))"
proof (cases "displayName p \<in> dn ` set gs")
  case True
  then show ?thesis by (simp add: isDuplicate_def count_names_eq)
next
  case False
  then have "filter (\<lambda>g. dn g = displayName p) gs = []"
    by (rule filter_key_empty)
  with False show ?thesis by (simp add: isDuplicate_def count_names_eq)
qed

lemma disambiguate_eq:
  "disambiguateDisplayNames gs =
     map (\<lambda>g. if 1 < length (filter (\<lambda>h. dn h = dn g) gs) then rename g else g) gs"
  by (simp add: disambiguateDisplayNames_def isDuplicate_count rename_def Let_def)

lemma rename_simps [simp]:
  "idp (rename g) = idp g" "images (rename g) = images g"
  "dn (rename g) = dn g @ '' ('' @ idp g @ '')''"
  "imageCount (person (rename g)) = imageCount (person g)"
  by (simp_all add: rename_def)

lemma rename_neq: "rename g \<noteq> g"
proof
  assume "rename g = g"
  then have "dn (rename g) = dn g" by simp
  then show False by simp
qed

lemma disambiguate_ids: "map idp (disambiguateDisplayNames gs) = map idp gs"
  by (simp add: disambiguate_eq comp_def)

lemma count_gt1_iff:
  assumes d: "distinct (map idp gs)" and g: "g \<in> set gs"
  shows "(1 < length (filter (\<lambda>h. dn h = dn g) gs)) = spec_ambiguous gs g"
proof
  let ?F = "filter (\<lambda>h. dn h = dn g) gs"
  assume len: "1 < length ?F"
  have "distinct (map idp ?F)" using d by (rule distinct_map_filter)
  then have "card (idp ` set ?F) = length ?F"
    using distinct_card [of "map idp ?F"] by simp
  with len have "\<not> idp ` set ?F \<subseteq> {idp g}"
    using card_mono [of "{idp g}" "idp ` set ?F"] by auto
  then obtain h where "h \<in> set ?F" "idp h \<noteq> idp g" by auto
  then show "spec_ambiguous gs g" by (auto simp: spec_ambiguous_def)
next
  let ?F = "filter (\<lambda>h. dn h = dn g) gs"
  assume "spec_ambiguous gs g"
  then obtain h where h: "h \<in> set gs" "dn h = dn g" "idp h \<noteq> idp g"
    by (auto simp: spec_ambiguous_def)
  have "distinct gs" using d by (rule distinct_map [THEN iffD1, THEN conjunct1])
  then have "distinct ?F" by simp
  then have "card (set ?F) = length ?F" by (rule distinct_card)
  moreover have "{g, h} \<subseteq> set ?F" "g \<noteq> h" using g h by auto
  then have "2 \<le> card (set ?F)"
    using card_mono [of "set ?F" "{g, h}"] by simp
  ultimately show "1 < length ?F" by simp
qed

lemma count_le1_distinct:
  "distinct (map f xs) \<Longrightarrow> length (filter (\<lambda>y. f y = a) xs) \<le> 1"
proof (induction xs)
  case Nil
  then show ?case by simp
next
  case (Cons x xs)
  show ?case
  proof (cases "f x = a")
    case True
    with Cons.prems have "a \<notin> f ` set xs" by auto
    then have "filter (\<lambda>y. f y = a) xs = []" by (rule filter_key_empty)
    with True show ?thesis by simp
  next
    case False
    with Cons show ?thesis by simp
  qed
qed

lemma distinct_count_le1:
  "(\<And>x. x \<in> set xs \<Longrightarrow> length (filter (\<lambda>y. f y = f x) xs) \<le> 1) \<Longrightarrow> distinct (map f xs)"
proof (induction xs)
  case Nil
  then show ?case by simp
next
  case (Cons x xs)
  have "f x \<notin> f ` set xs"
  proof
    assume "f x \<in> f ` set xs"
    then have "filter (\<lambda>y. f y = f x) xs \<noteq> []" by (rule filter_key_nonempty)
    then have "0 < length (filter (\<lambda>y. f y = f x) xs)" by simp
    with Cons.prems [of x] show False by simp
  qed
  moreover have "distinct (map f xs)"
  proof (rule Cons.IH)
    fix y assume "y \<in> set xs"
    with Cons.prems [of y] show "length (filter (\<lambda>z. f z = f y) xs) \<le> 1"
      by (simp split: if_splits)
  qed
  ultimately show ?case by simp
qed

lemma map_cong_id: "(\<And>x. x \<in> set xs \<Longrightarrow> f x = x) \<Longrightarrow> map f xs = xs"
  by (induction xs) auto

text \<open>
  C5 (as stated): after disambiguation no two groupings show equal names. Three sharers
  with distinct identifiers, two named \<open>Sam\<close> and one whose own display name is
  \<open>Sam (s1)\<close>: the first \<open>Sam\<close> is rewritten to \<open>Sam (s1)\<close>, the name the third
  grouping keeps.
\<close>

theorem C5_equal_names_counterexample:
  "distinct (map (identifier \<circ> person) gs_clash) \<and>
   map (displayName \<circ> person) (disambiguateDisplayNames gs_clash) =
     [''Sam (s1)'', ''Sam (s2)'', ''Sam (s1)'']"
  by (simp add: gs_clash_def grouping_of_def disambiguateDisplayNames_def isDuplicate_def)

text \<open>
  C5 (amended): for every grouping list with pairwise distinct identifiers,
  disambiguation rewrites the name of every grouping whose \<open>displayName\<close> is shared
  with another identifier to \<open>displayName (identifier)\<close>, leaves every other
  grouping untouched, and any two groupings that shared a \<open>displayName\<close> show
  different names afterwards.
\<close>

theorem C5_disambiguateDisplayNames:
  assumes "distinct (map (identifier \<circ> person) gs)"
  shows "disambiguateDisplayNames gs =
           map (\<lambda>g. if spec_ambiguous gs g
                     then g\<lparr> person := (person g)
                            \<lparr> displayName :=
                                displayName (person g) @ '' ('' @ identifier (person g) @ '')'' \<rparr> \<rparr>
                     else g) gs \<and>
         (\<forall>i < length gs. \<forall>j < length gs.
            displayName (person (gs ! i)) = displayName (person (gs ! j)) \<and>
            identifier (person (gs ! i)) \<noteq> identifier (person (gs ! j)) \<longrightarrow>
            displayName (person (disambiguateDisplayNames gs ! i)) \<noteq>
            displayName (person (disambiguateDisplayNames gs ! j)))"
proof (intro conjI allI impI)
  have d: "distinct (map idp gs)" using assms by (simp add: comp_def)
  show "disambiguateDisplayNames gs =
           map (\<lambda>g. if spec_ambiguous gs g
                     then g\<lparr> person := (person g)
                            \<lparr> displayName :=
                                displayName (person g) @ '' ('' @ identifier (person g) @ '')'' \<rparr> \<rparr>
                     else g) gs"
    unfolding disambiguate_eq rename_def
  proof (rule map_cong [OF refl])
    fix g assume "g \<in> set gs"
    from count_gt1_iff [OF d this]
    show "(if 1 < length (filter (\<lambda>h. dn h = dn g) gs)
           then g\<lparr> person := (person g)
                  \<lparr> displayName :=
                      displayName (person g) @ '' ('' @ identifier (person g) @ '')'' \<rparr> \<rparr>
           else g) =
          (if spec_ambiguous gs g
           then g\<lparr> person := (person g)
                  \<lparr> displayName :=
                      displayName (person g) @ '' ('' @ identifier (person g) @ '')'' \<rparr> \<rparr>
           else g)"
      by simp
  qed
next
  fix i j
  assume i: "i < length gs" and j: "j < length gs"
    and h: "displayName (person (gs ! i)) = displayName (person (gs ! j)) \<and>
            identifier (person (gs ! i)) \<noteq> identifier (person (gs ! j))"
  have d: "distinct (map idp gs)" using assms by (simp add: comp_def)
  have gi: "gs ! i \<in> set gs" and gj: "gs ! j \<in> set gs" using i j by simp_all
  have ai: "spec_ambiguous gs (gs ! i)" using h gj by (auto simp: spec_ambiguous_def)
  have aj: "spec_ambiguous gs (gs ! j)"
    using h gi unfolding spec_ambiguous_def by (intro bexI [of _ "gs ! i"]) simp_all
  have "disambiguateDisplayNames gs ! i = rename (gs ! i)"
    using i ai count_gt1_iff [OF d gi] by (simp add: disambiguate_eq)
  moreover have "disambiguateDisplayNames gs ! j = rename (gs ! j)"
    using j aj count_gt1_iff [OF d gj] by (simp add: disambiguate_eq)
  ultimately show "displayName (person (disambiguateDisplayNames gs ! i)) \<noteq>
            displayName (person (disambiguateDisplayNames gs ! j))"
    using h by simp
qed

theorem C5_disambiguateDisplayNames_witness:
  "distinct (map (identifier \<circ> person) gs_sam) \<and>
   map (displayName \<circ> person) (disambiguateDisplayNames gs_sam) = [''Sam (s1)'', ''Sam (s2)''] \<and>
   map (identifier \<circ> person) (disambiguateDisplayNames gs_sam) = [''s1'', ''s2'']"
proof -
  have d: "distinct (map (identifier \<circ> person) gs_sam)"
    by (simp add: gs_sam_def grouping_of_def)
  have a: "spec_ambiguous gs_sam (grouping_of ''Sam'' ''s1'')"
    "spec_ambiguous gs_sam (grouping_of ''Sam'' ''s2'')"
    by (simp_all add: spec_ambiguous_def gs_sam_def grouping_of_def)
  from C5_disambiguateDisplayNames [OF d]
  have "disambiguateDisplayNames gs_sam =
           map (\<lambda>g. if spec_ambiguous gs_sam g
                     then g\<lparr> person := (person g)
                            \<lparr> displayName :=
                                displayName (person g) @ '' ('' @ identifier (person g) @ '')'' \<rparr> \<rparr>
                     else g) gs_sam" by (rule conjunct1)
  also have "\<dots> = [grouping_of ''Sam (s1)'' ''s1'', grouping_of ''Sam (s2)'' ''s2'']"
    using a by (simp add: gs_sam_def) (simp add: grouping_of_def)
  finally show ?thesis using d by (simp add: grouping_of_def)
qed

text \<open>
  C6 (as stated): disambiguation is idempotent on every grouping list. On the list of
  C5's counterexample the first pass leaves two groupings named \<open>Sam (s1)\<close>, and the
  second pass appends their identifiers again.
\<close>

theorem C6_double_append_counterexample:
  "map (displayName \<circ> person) (disambiguateDisplayNames gs_clash) =
     [''Sam (s1)'', ''Sam (s2)'', ''Sam (s1)''] \<and>
   map (displayName \<circ> person) (disambiguateDisplayNames (disambiguateDisplayNames gs_clash)) =
     [''Sam (s1) (s1)'', ''Sam (s2)'', ''Sam (s1) (s3)''] \<and>
   disambiguateDisplayNames (disambiguateDisplayNames gs_clash) \<noteq>
     disambiguateDisplayNames gs_clash"
proof -
  have 1: "disambiguateDisplayNames gs_clash =
      [grouping_of ''Sam (s1)'' ''s1'', grouping_of ''Sam (s2)'' ''s2'',
       grouping_of ''Sam (s1)'' ''s3'']"
    by (simp add: gs_clash_def grouping_of_def disambiguateDisplayNames_def isDuplicate_def)
  have 2: "disambiguateDisplayNames
      [grouping_of ''Sam (s1)'' ''s1'', grouping_of ''Sam (s2)'' ''s2'',
       grouping_of ''Sam (s1)'' ''s3''] =
      [grouping_of ''Sam (s1) (s1)'' ''s1'', grouping_of ''Sam (s2)'' ''s2'',
       grouping_of ''Sam (s1) (s3)'' ''s3'']"
    by (simp add: grouping_of_def disambiguateDisplayNames_def isDuplicate_def)
  show ?thesis unfolding 1 2 by (simp add: grouping_of_def)
qed

text \<open>
  C6 (amended): applying disambiguation to its own output changes nothing exactly when
  the displayed names of that output are pairwise distinct; where two of them are
  equal, the second pass appends the identifier once more.
\<close>

theorem C6_idempotent_iff:
  "(disambiguateDisplayNames (disambiguateDisplayNames gs) = disambiguateDisplayNames gs) =
   distinct (map (\<lambda>g. displayName (person g)) (disambiguateDisplayNames gs))"
proof
  let ?D = "disambiguateDisplayNames gs"
  assume eq: "disambiguateDisplayNames ?D = ?D"
  show "distinct (map dn ?D)"
  proof (rule distinct_count_le1)
    fix g assume g: "g \<in> set ?D"
    show "length (filter (\<lambda>h. dn h = dn g) ?D) \<le> 1"
    proof (rule ccontr)
      assume "\<not> ?thesis"
      then have c: "1 < length (filter (\<lambda>h. dn h = dn g) ?D)" by simp
      from g obtain i where i: "i < length ?D" "?D ! i = g" by (auto simp: in_set_conv_nth)
      have "disambiguateDisplayNames ?D ! i = rename g"
        using i c by (simp add: disambiguate_eq [of ?D])
      with eq i show False using rename_neq [of g] by simp
    qed
  qed
next
  let ?D = "disambiguateDisplayNames gs"
  assume d: "distinct (map dn ?D)"
  have "map (\<lambda>g. if 1 < length (filter (\<lambda>h. dn h = dn g) ?D) then rename g else g) ?D = ?D"
  proof (rule map_cong_id)
    fix g assume "g \<in> set ?D"
    from count_le1_distinct [OF d, of "dn g"]
    show "(if 1 < length (filter (\<lambda>h. dn h = dn g) ?D) then rename g else g) = g" by simp
  qed
  then show "disambiguateDisplayNames ?D = ?D" by (simp add: disambiguate_eq [of ?D])
qed

theorem C6_idempotent_iff_witness:
  "distinct (map (\<lambda>g. displayName (person g)) (disambiguateDisplayNames gs_sam)) \<and>
   disambiguateDisplayNames (disambiguateDisplayNames gs_sam) = disambiguateDisplayNames gs_sam"
proof -
  have d: "distinct (map (\<lambda>g. displayName (person g)) (disambiguateDisplayNames gs_sam))"
    by (simp add: gs_sam_def grouping_of_def disambiguateDisplayNames_def isDuplicate_def)
  from d C6_idempotent_iff [of gs_sam, THEN iffD2, OF d] show ?thesis by (rule conjI)
qed

section \<open>The processing pipeline\<close>

lemmas eval_defs = processGraphItems_def filterImagesByMime_def mapToSharedImage_def
  truthy_def truthy_opt_def isImageMimeType_def hasValidSharer_def hasValidPreview_def
  groupBySharer_def toGrouping_def array_sort_def disambiguateDisplayNames_def isDuplicate_def
  Let_def

lemma mapToSharedImage_None_iff: "(mapToSharedImage now item = None) = (\<not> mappable item)"
  by (auto simp: mapToSharedImage_def mappable_def truthy_opt_def hasValidSharer_def
      split: option.splits)

lemma mapToSharedImage_Some:
  assumes "mapToSharedImage now item = Some img"
  shows "item_file item = Some (mimeType img)" and "img_id img = item_id item"
    and "img_name img = item_name item"
  using assms
  by (auto simp: mapToSharedImage_def split: if_splits option.splits)

lemma map_items_errors:
  "snd (map_items clock i items acc errs) =
     errs @ map (\<lambda>item. ''Failed to process item: '' @ item_id item)
              (filter (\<lambda>item. \<not> mappable item) items)"
proof (induction items arbitrary: i acc errs)
  case Nil
  then show ?case by simp
next
  case (Cons item items)
  show ?case
  proof (cases "mapToSharedImage (clock i) item")
    case None
    then have "\<not> mappable item" by (simp add: mapToSharedImage_None_iff)
    with None show ?thesis by (simp add: Cons.IH)
  next
    case (Some img)
    then have "mappable item" using mapToSharedImage_None_iff [of "clock i" item] by simp
    with Some show ?thesis by (simp add: Cons.IH)
  qed
qed

lemma map_items_length:
  "length (fst (map_items clock i items acc errs)) =
     length acc + length (filter mappable items)"
proof (induction items arbitrary: i acc errs)
  case Nil
  then show ?case by simp
next
  case (Cons item items)
  show ?case
  proof (cases "mapToSharedImage (clock i) item")
    case None
    then have "\<not> mappable item" by (simp add: mapToSharedImage_None_iff)
    with None show ?thesis by (simp add: Cons.IH)
  next
    case (Some img)
    then have "mappable item" using mapToSharedImage_None_iff [of "clock i" item] by simp
    with Some show ?thesis by (simp add: Cons.IH)
  qed
qed

lemma map_items_source:
  "img \<in> set (fst (map_items clock i items acc errs)) \<Longrightarrow>
   img \<in> set acc \<or> (\<exists>item \<in> set items. \<exists>now. mapToSharedImage now item = Some img)"
proof (induction items arbitrary: i acc errs)
  case Nil
  then show ?case by simp
next
  case (Cons item items)
  show ?case
  proof (cases "mapToSharedImage (clock i) item")
    case None
    with Cons.prems have "img \<in> set (fst (map_items clock (Suc i) items acc
        (errs @ [''Failed to process item: '' @ item_id item])))" by simp
    from Cons.IH [OF this] show ?thesis by auto
  next
    case (Some m)
    with Cons.prems have "img \<in> set (fst (map_items clock (Suc i) items (acc @ [m]) errs))"
      by simp
    from Cons.IH [OF this] Some show ?thesis by auto
  qed
qed

text \<open>The catch branch of processGraphItems is never taken.\<close>

lemma processGraphItems_eq:
  "processGraphItems clock lc rawItems =
     (let mapped = map_items clock 0 (filterImagesByMime rawItems) [] [];
          gs = disambiguateDisplayNames
                 (array_sort (\<lambda>a b. lc (dn a) (dn b))
                    (map mk_grouping (foldl groups_push [] (fst mapped))))
      in \<lparr> groupings = gs, allPeople = map person gs,
           totalImages = length (fst mapped), errors = snd mapped \<rparr>)"
  by (simp add: processGraphItems_def groupBySharer_eq Let_def)

lemma filter_filterImagesByMime:
  "filter P (filterImagesByMime items) = filter (\<lambda>item. passesImageFilter item \<and> P item) items"
  by (induction items) (auto simp: filterImagesByMime_def passesImageFilter_def)

lemma passes_mappable:
  "passesImageFilter item \<Longrightarrow> mappable item = (truthy (item_name item) \<and> hasValidSharer item)"
  by (auto simp: passesImageFilter_iff mappable_def truthy_opt_def)

lemma disambiguate_member:
  assumes "g' \<in> set (disambiguateDisplayNames gs)"
  shows "\<exists>g \<in> set gs. idp g' = idp g \<and> images g' = images g"
  using assms unfolding disambiguate_eq by (auto split: if_splits)

lemma filter_flatten_absent:
  assumes "k \<notin> idp ` set gs" "\<And>g i. g \<in> set gs \<Longrightarrow> i \<in> set (images g) \<Longrightarrow> sid i = idp g"
  shows "filter (\<lambda>i. sid i = k) (concat (map images gs)) = []"
  using assms by (auto simp: filter_empty_conv)

lemma filter_flatten_present:
  assumes "distinct (map idp gs)"
    and "\<And>g i. g \<in> set gs \<Longrightarrow> i \<in> set (images g) \<Longrightarrow> sid i = idp g"
    and "g \<in> set gs"
  shows "filter (\<lambda>i. sid i = idp g) (concat (map images gs)) = images g"
  using assms
proof (induction gs)
  case Nil
  then show ?case by simp
next
  case (Cons h gs)
  have own: "filter (\<lambda>i. sid i = idp h) (images h) = images h"
    using Cons.prems(2) [of h] by (simp add: filter_id_conv)
  show ?case
  proof (cases "g = h")
    case True
    have "idp h \<notin> idp ` set gs" using Cons.prems(1) by simp
    then have "filter (\<lambda>i. sid i = idp h) (concat (map images gs)) = []"
      using Cons.prems(2) by (intro filter_flatten_absent) simp_all
    with own True show ?thesis by simp
  next
    case False
    with Cons.prems(3) have g: "g \<in> set gs" by simp
    then have "idp h \<noteq> idp g" using Cons.prems(1) by auto
    then have "filter (\<lambda>i. sid i = idp g) (images h) = []"
      using Cons.prems(2) [of h] by (auto simp: filter_empty_conv)
    moreover have "filter (\<lambda>i. sid i = idp g) (concat (map images gs)) = images g"
      using Cons.prems(1,2) g by (intro Cons.IH) simp_all
    ultimately show ?thesis by simp
  qed
qed

text \<open>What the pipeline's groupings are, in terms of the mapped images.\<close>

lemma processGraphItems_groupings:
  fixes clock lc rawItems
  defines "P \<equiv> processGraphItems clock lc rawItems"
    and "imgs \<equiv> fst (map_items clock 0 (filterImagesByMime rawItems) [] [])"
  shows "distinct (map idp (groupings P))"
    and "idp ` set (groupings P) = sid ` set imgs"
    and "\<And>g. g \<in> set (groupings P) \<Longrightarrow>
           images g = filter (\<lambda>img. sid img = idp g) imgs \<and> images g \<noteq> []"
    and "allPeople P = map person (groupings P)"
proof -
  let ?R = "array_sort (\<lambda>a b. lc (dn a) (dn b)) (map mk_grouping (foldl groups_push [] imgs))"
  have G: "groupings P = disambiguateDisplayNames ?R"
    by (simp add: P_def imgs_def processGraphItems_eq Let_def)
  show "allPeople P = map person (groupings P)"
    by (simp add: P_def processGraphItems_eq Let_def)
  show "distinct (map idp (groupings P))"
    unfolding G disambiguate_ids by (rule sorted_groupings_props(1))
  have "idp ` set (groupings P) = set (map idp (groupings P))" by (simp only: set_map)
  also have "\<dots> = idp ` set ?R" unfolding G disambiguate_ids by (simp only: set_map)
  also have "\<dots> = sid ` set imgs" by (rule sorted_groupings_props(2))
  finally show "idp ` set (groupings P) = sid ` set imgs" .
  fix g assume "g \<in> set (groupings P)"
  then obtain r where r: "r \<in> set ?R" "idp g = idp r" "images g = images r"
    unfolding G using disambiguate_member by blast
  from sorted_groupings_props(3) [OF r(1)]
  have "images r = filter (\<lambda>img. sid img = idp r) imgs" "images r \<noteq> []" by blast+
  then show "images g = filter (\<lambda>img. sid img = idp g) imgs \<and> images g \<noteq> []"
    unfolding r(2,3) by (intro conjI)
qed

lemma flatten_member:
  assumes "img \<in> set (concat (map images (groupings (processGraphItems clock lc rawItems))))"
  shows "img \<in> set (fst (map_items clock 0 (filterImagesByMime rawItems) [] []))"
proof -
  from assms obtain g where g: "g \<in> set (groupings (processGraphItems clock lc rawItems))"
    "img \<in> set (images g)" by auto
  from processGraphItems_groupings(3) [OF g(1)] g(2) show ?thesis by simp
qed

subsection \<open>The pipeline on the concrete items\<close>

lemma proc_john_pdf:
  "processGraphItems fixed_clock codeUnitCompare [item_john, item_pdf] =
     \<lparr> groupings = [\<lparr> person = person_john, images = [image_john] \<rparr>],
       allPeople = [person_john], totalImages = 1, errors = [] \<rparr>"
  by (simp add: eval_defs item_john_def item_pdf_def image_john_def person_john_def fixed_clock_def)

lemma proc_john_sam:
  "processGraphItems fixed_clock codeUnitCompare [item_john, item_sam] =
     \<lparr> groupings = [\<lparr> person = person_john, images = [image_john] \<rparr>,
                    \<lparr> person = person_sam, images = [image_sam] \<rparr>],
       allPeople = [person_john, person_sam], totalImages = 2, errors = [] \<rparr>"
  by (simp add: eval_defs item_john_def item_sam_def image_john_def image_sam_def
      person_john_def person_sam_def fixed_clock_def)

lemma proc_john:
  "processGraphItems fixed_clock codeUnitCompare [item_john] =
     \<lparr> groupings = [\<lparr> person = person_john, images = [image_john] \<rparr>],
       allPeople = [person_john], totalImages = 1, errors = [] \<rparr>"
  by (simp add: eval_defs item_john_def image_john_def person_john_def fixed_clock_def)

lemma proc_sam:
  "processGraphItems fixed_clock codeUnitCompare [item_sam] =
     \<lparr> groupings = [\<lparr> person = person_sam, images = [image_sam] \<rparr>],
       allPeople = [person_sam], totalImages = 1, errors = [] \<rparr>"
  by (simp add: eval_defs item_sam_def image_sam_def person_sam_def fixed_clock_def)

subsection \<open>Recorded errors\<close>

text \<open>
  C8 (as stated): every item the pipeline excludes, an item with no usable MIME type
  included, leaves an entry in the error list. An item without \<open>file\<close> and a PDF are
  both dropped by \<open>filterImagesByMime\<close>, and the error list stays empty.
\<close>

theorem C8_unrecorded_exclusion_counterexample:
  "item_file item_nomime = None \<and>
   filterImagesByMime [item_nomime, item_pdf] = [] \<and>
   groupings (processGraphItems fixed_clock codeUnitCompare [item_nomime, item_pdf]) = [] \<and>
   errors (processGraphItems fixed_clock codeUnitCompare [item_nomime, item_pdf]) = []"
  by (simp add: eval_defs item_nomime_def item_pdf_def)

text \<open>
  C8 (amended): the error list holds, in input order, exactly one entry
  \<open>Failed to process item: id\<close> for every item that passes the image filter and
  fails mapping (its name is empty, or its sharer lacks a display name or lacks both
  id and email); items the image filter drops leave no entry; every other filtered
  item is mapped and counted in \<open>totalImages\<close>, so processing goes on after a failure.
\<close>

theorem C8_recorded_errors:
  "errors (processGraphItems clock localeCompare rawItems) =
     map (\<lambda>item. ''Failed to process item: '' @ item_id item)
       (filter (\<lambda>item. passesImageFilter item \<and>
                        \<not> (truthy (item_name item) \<and> hasValidSharer item)) rawItems) \<and>
   totalImages (processGraphItems clock localeCompare rawItems) =
     length (filter (\<lambda>item. passesImageFilter item \<and>
                              truthy (item_name item) \<and> hasValidSharer item) rawItems)"
proof -
  have a: "filter (\<lambda>item. \<not> mappable item) (filterImagesByMime rawItems) =
      filter (\<lambda>item. passesImageFilter item \<and>
                        \<not> (truthy (item_name item) \<and> hasValidSharer item)) rawItems"
    unfolding filter_filterImagesByMime
    by (rule filter_cong [OF refl]) (auto simp: passes_mappable)
  have b: "filter mappable (filterImagesByMime rawItems) =
      filter (\<lambda>item. passesImageFilter item \<and>
                              truthy (item_name item) \<and> hasValidSharer item) rawItems"
    unfolding filter_filterImagesByMime
    by (rule filter_cong [OF refl]) (auto simp: passes_mappable)
  show ?thesis
    by (simp add: processGraphItems_eq Let_def map_items_errors map_items_length a b)
qed

theorem C8_recorded_errors_witness:
  "errors (processGraphItems fixed_clock codeUnitCompare [item_john, item_noname, item_pdf, item_anonymous]) =
     [''Failed to process item: 5'', ''Failed to process item: 7''] \<and>
   totalImages (processGraphItems fixed_clock codeUnitCompare [item_john, item_noname, item_pdf, item_anonymous]) = 1"
proof -
  have p: "passesImageFilter item_john" "passesImageFilter item_noname"
    "\<not> passesImageFilter item_pdf" "passesImageFilter item_anonymous"
    by (simp_all add: passesImageFilter_iff item_john_def item_noname_def item_pdf_def
        item_anonymous_def truthy_def isImageMimeType_def)
  have n: "truthy (item_name item_john)" "\<not> truthy (item_name item_noname)"
    "truthy (item_name item_anonymous)"
    by (simp_all add: item_john_def item_noname_def item_anonymous_def truthy_def)
  have v: "hasValidSharer item_john" "\<not> hasValidSharer item_anonymous"
    by (simp_all add: hasValidSharer_def item_john_def item_anonymous_def truthy_def
        truthy_opt_def)
  have i: "item_id item_noname = ''5''" "item_id item_anonymous = ''7''"
    by (simp_all add: item_noname_def item_anonymous_def)
  from C8_recorded_errors
    [of fixed_clock codeUnitCompare "[item_john, item_noname, item_pdf, item_anonymous]"]
  show ?thesis by (simp add: p n v i)
qed

subsection \<open>The MIME type invariant\<close>

text \<open>
  C9: every image in the groupings the pipeline returns has a \<open>mimeType\<close> that starts
  with \<open>image/\<close>, and it is the declared MIME type of an item the image filter kept;
  the filter keeps exactly the items whose declared MIME type starts with \<open>image/\<close>,
  in input order, and drops the items without one.
\<close>

theorem C9_pipeline_images_have_image_mime:
  "(\<forall>img \<in> set (concat (map images (groupings (processGraphItems clock localeCompare rawItems)))).
      isImageMimeType (mimeType img) \<and>
      (\<exists>item \<in> set (filterImagesByMime rawItems).
         item_file item = Some (mimeType img) \<and> item_id item = img_id img)) \<and>
   filterImagesByMime rawItems =
     filter (\<lambda>item. \<exists>m. item_file item = Some m \<and> isImageMimeType m) rawItems"
proof (intro conjI ballI)
  fix img
  assume "img \<in> set (concat (map images (groupings (processGraphItems clock localeCompare rawItems))))"
  then have "img \<in> set (fst (map_items clock 0 (filterImagesByMime rawItems) [] []))"
    by (rule flatten_member)
  from map_items_source [OF this]
  obtain item now where item: "item \<in> set (filterImagesByMime rawItems)"
    "mapToSharedImage now item = Some img" by auto
  from mapToSharedImage_Some [OF item(2)]
  have f: "item_file item = Some (mimeType img)" "img_id img = item_id item" by simp_all
  from item(1) f(1) show "isImageMimeType (mimeType img)"
    by (simp add: filterImagesByMime_def)
  from item(1) f show "\<exists>item \<in> set (filterImagesByMime rawItems).
         item_file item = Some (mimeType img) \<and> item_id item = img_id img"
    by (intro bexI [of _ item]) simp_all
next
  have "isImageMimeType m \<Longrightarrow> truthy m" for m
    by (auto simp: isImageMimeType_def truthy_def)
  then show "filterImagesByMime rawItems =
     filter (\<lambda>item. \<exists>m. item_file item = Some m \<and> isImageMimeType m) rawItems"
    unfolding filterImagesByMime_def
    by (intro filter_cong [OF refl]) (auto split: option.splits)
qed

theorem C9_pipeline_images_have_image_mime_witness:
  "concat (map images (groupings (processGraphItems fixed_clock codeUnitCompare [item_john, item_pdf])))
     = [image_john] \<and>
   isImageMimeType (mimeType image_john) \<and>
   filterImagesByMime [item_john, item_pdf] = [item_john]"
proof -
  let ?raw = "[item_john, item_pdf]"
  have v: "concat (map images (groupings (processGraphItems fixed_clock codeUnitCompare ?raw)))
     = [image_john]" by (simp add: proc_john_pdf)
  have m: "(\<exists>m. item_file item_john = Some m \<and> isImageMimeType m)"
    "\<not> (\<exists>m. item_file item_pdf = Some m \<and> isImageMimeType m)"
    by (simp_all add: item_john_def item_pdf_def isImageMimeType_def)
  note t = C9_pipeline_images_have_image_mime [of fixed_clock codeUnitCompare ?raw]
  from t have "\<forall>img \<in> set [image_john]. isImageMimeType (mimeType img) \<and>
      (\<exists>item \<in> set (filterImagesByMime ?raw).
         item_file item = Some (mimeType img) \<and> item_id item = img_id img)"
    unfolding v by (rule conjunct1)
  then have 1: "isImageMimeType (mimeType image_john)" by simp
  from t have "filterImagesByMime ?raw =
     filter (\<lambda>item. \<exists>m. item_file item = Some m \<and> isImageMimeType m) ?raw"
    by (rule conjunct2)
  then have 2: "filterImagesByMime ?raw = [item_john]" using m by simp
  from v 1 2 show ?thesis by (intro conjI)
qed

section \<open>The selection state engine\<close>

lemma run_snoc: "run clock lc s (events @ [e]) = step clock lc (run clock lc s events) e"
  by (simp add: run_def)

lemma run_two: "run clock lc s [e1, e2] = step clock lc (step clock lc s e1) e2"
  by (simp add: run_def)

lemma settle_success:
  assumes "\<not> truthy_opt err"
  shows "step clock lc s (Settled rid (Resolved rawItems err)) =
           selectionReducer s
             (SET_DATA (allPeople (processGraphItems clock lc rawItems))
                (concat (map images (groupings (processGraphItems clock lc rawItems)))))"
  using assms by (simp add: loadData_settle_def dispatch_all_def Let_def)

lemma settle_failure:
  assumes "fetch_failed outcome"
  shows "step clock lc s (Settled rid outcome) =
           selectionReducer s
             (SET_ERROR (case outcome of
                           Resolved rawItems err \<Rightarrow> err
                         | Rejected msg \<Rightarrow>
                             Some (case msg of Some m \<Rightarrow> m | None \<Rightarrow> ''Failed to load data'')))"
  using assms
  by (cases outcome) (simp_all add: fetch_failed_def loadData_settle_def dispatch_all_def)

lemma issue_fields:
  assumes "ev = Load rid \<or> ev = Refresh rid"
  shows "selectedPerson (step clock lc s ev) = selectedPerson s"
    and "displayImages (step clock lc s ev) = displayImages s"
    and "availablePeople (step clock lc s ev) = availablePeople s"
  using assms
  by (auto simp: dispatch_all_def loadData_issue_def refreshData_issue_def)

lemmas engine_defs = run_def dispatch_all_def loadData_issue_def refreshData_issue_def
  loadData_settle_def truthy_opt_def truthy_def initialState_def getAllImagesFromPeople_def Let_def

lemma loaded_state_eq:
  "loaded_state =
     \<lparr> selectedPerson = None, displayImages = [image_john, image_sam],
       availablePeople = [person_john, person_sam], isLoading = False, error = None \<rparr>"
  by (simp add: loaded_state_def engine_defs proc_john_sam)

lemma john_selected_state_eq:
  "john_selected_state =
     \<lparr> selectedPerson = Some person_john, displayImages = [],
       availablePeople = [person_john, person_sam], isLoading = False, error = None \<rparr>"
  by (simp add: john_selected_state_def loaded_state_eq run_def getAllImagesFromPeople_def)

text \<open>
  C1: \<open>selectPerson(p)\<close> should show exactly the images shared by \<open>p\<close>, and
  \<open>selectPerson(null)\<close> the full image set. After a load of John's and Sam's images
  the gallery shows both; selecting John, or selecting nobody, empties it. In every
  state and for every payload the \<open>SELECT_PERSON\<close> branch leaves \<open>displayImages\<close>
  empty, since \<open>getAllImagesFromPeople\<close> returns no image at all.
\<close>

theorem C1_selectPerson_empties_gallery:
  "displayImages (selectionReducer state (SELECT_PERSON payload)) = [] \<and>
   displayImages loaded_state = [image_john, image_sam] \<and>
   availablePeople loaded_state = [person_john, person_sam] \<and>
   displayImages
     (run fixed_clock codeUnitCompare loaded_state [SelectPerson (Some person_john)]) = [] \<and>
   displayImages (run fixed_clock codeUnitCompare loaded_state [SelectPerson None]) = []"
proof (intro conjI)
  show "displayImages (selectionReducer state (SELECT_PERSON payload)) = []"
    by (cases payload) (simp_all add: getAllImagesFromPeople_def)
  show "displayImages loaded_state = [image_john, image_sam]"
    and "availablePeople loaded_state = [person_john, person_sam]"
    by (simp_all add: loaded_state_eq)
  show "displayImages
     (run fixed_clock codeUnitCompare loaded_state [SelectPerson (Some person_john)]) = []"
    and "displayImages (run fixed_clock codeUnitCompare loaded_state [SelectPerson None]) = []"
    by (simp_all add: run_def getAllImagesFromPeople_def)
qed

text \<open>
  C2 (as stated): when the selected person is gone from the new data the view falls
  back to all images. John is selected and a refresh brings Sam's image only: the
  selection stays on John and the gallery is empty, while the full image list is not.
\<close>

theorem C2_no_fallback_counterexample:
  "selectedPerson
     (run fixed_clock codeUnitCompare loaded_state
        [SelectPerson (Some person_john), Refresh 1, Settled 1 (Resolved [item_sam] None)]) =
     Some person_john \<and>
   availablePeople
     (run fixed_clock codeUnitCompare loaded_state
        [SelectPerson (Some person_john), Refresh 1, Settled 1 (Resolved [item_sam] None)]) =
     [person_sam] \<and>
   displayImages
     (run fixed_clock codeUnitCompare loaded_state
        [SelectPerson (Some person_john), Refresh 1, Settled 1 (Resolved [item_sam] None)]) = [] \<and>
   concat (map images (groupings (processGraphItems fixed_clock codeUnitCompare [item_sam]))) =
     [image_sam]"
  by (simp add: loaded_state_eq engine_defs proc_sam person_john_def image_sam_def)

text \<open>
  C2 (amended): a successful load or refresh leaves \<open>selectedPerson\<close> unchanged, stores
  the new people list and sets \<open>displayImages\<close> to the new flattened image list
  filtered by the selected person's identifier (the whole list when nobody is
  selected). When the selected person is among the new people this is that person's
  grouping, which is not empty; when the person is gone \<open>displayImages\<close> is empty.
\<close>

theorem C2_load_success:
  assumes "ev = Load rid \<or> ev = Refresh rid" and "\<not> truthy_opt err"
  shows "let processed = processGraphItems clock lc rawItems;
             allImages = concat (map images (groupings processed));
             s' = run clock lc s [ev, Settled rid (Resolved rawItems err)]
         in selectedPerson s' = selectedPerson s \<and>
            availablePeople s' = allPeople processed \<and>
            \<not> isLoading s' \<and> error s' = None \<and>
            (case selectedPerson s of
               None \<Rightarrow> displayImages s' = allImages
             | Some p \<Rightarrow>
                 displayImages s' =
                   filter (\<lambda>img. sb_identifier (sharedBy img) = identifier p) allImages \<and>
                 (if identifier p \<in> identifier ` set (allPeople processed)
                  then displayImages s' \<noteq> [] \<and>
                       (\<exists>g \<in> set (groupings processed).
                          identifier (person g) = identifier p \<and> displayImages s' = images g)
                  else displayImages s' = []))"
proof -
  let ?P = "processGraphItems clock lc rawItems"
  let ?all = "concat (map images (groupings ?P))"
  let ?s1 = "step clock lc s ev"
  let ?s' = "run clock lc s [ev, Settled rid (Resolved rawItems err)]"
  have s': "?s' = selectionReducer ?s1 (SET_DATA (allPeople ?P) ?all)"
    unfolding run_two by (rule settle_success [OF assms(2)])
  have sel1: "selectedPerson ?s1 = selectedPerson s" by (rule issue_fields(1) [OF assms(1)])
  have base: "selectedPerson ?s' = selectedPerson s" "availablePeople ?s' = allPeople ?P"
    "\<not> isLoading ?s'" "error ?s' = None"
    by (simp_all add: s' sel1 Let_def)
  have disp: "displayImages ?s' =
      (case selectedPerson s of
         None \<Rightarrow> ?all
       | Some p \<Rightarrow> filter (\<lambda>img. sid img = identifier p) ?all)"
    by (simp add: s' sel1 Let_def split: option.splits)
  have owned: "\<And>g i. g \<in> set (groupings ?P) \<Longrightarrow> i \<in> set (images g) \<Longrightarrow> sid i = idp g"
    using processGraphItems_groupings(3) [of _ clock lc rawItems] by auto
  have people: "identifier ` set (allPeople ?P) = idp ` set (groupings ?P)"
    by (simp add: processGraphItems_groupings(4) image_comp comp_def)
  have sel: "(case selectedPerson s of
               None \<Rightarrow> displayImages ?s' = ?all
             | Some p \<Rightarrow>
                 displayImages ?s' = filter (\<lambda>img. sid img = identifier p) ?all \<and>
                 (if identifier p \<in> identifier ` set (allPeople ?P)
                  then displayImages ?s' \<noteq> [] \<and>
                       (\<exists>g \<in> set (groupings ?P).
                          idp g = identifier p \<and> displayImages ?s' = images g)
                  else displayImages ?s' = []))"
  proof (cases "selectedPerson s")
    case None
    then show ?thesis by (simp add: disp)
  next
    case (Some p)
    have d: "displayImages ?s' = filter (\<lambda>img. sid img = identifier p) ?all"
      by (simp add: disp Some)
    show ?thesis
    proof (cases "identifier p \<in> identifier ` set (allPeople ?P)")
      case True
      then obtain g where g: "g \<in> set (groupings ?P)" "idp g = identifier p"
        unfolding people by auto
      have "filter (\<lambda>i. sid i = idp g) ?all = images g"
        using processGraphItems_groupings(1) [of clock lc rawItems] owned g(1)
        by (rule filter_flatten_present)
      then have e: "displayImages ?s' = images g" by (simp add: d g(2))
      moreover have "images g \<noteq> []"
        using processGraphItems_groupings(3) [OF g(1)] by (rule conjunct2)
      ultimately have "displayImages ?s' \<noteq> [] \<and>
                       (\<exists>g \<in> set (groupings ?P).
                          idp g = identifier p \<and> displayImages ?s' = images g)"
        using g by auto
      with True d Some show ?thesis by simp
    next
      case False
      then have "identifier p \<notin> idp ` set (groupings ?P)" by (simp add: people)
      then have "filter (\<lambda>i. sid i = identifier p) ?all = []"
        using owned by (rule filter_flatten_absent)
      with False d Some show ?thesis by simp
    qed
  qed
  from base sel show ?thesis by (simp add: Let_def)
qed

theorem C2_load_success_witness:
  "\<not> truthy_opt None \<and>
   selectedPerson john_selected_state = Some person_john \<and>
   selectedPerson
     (run fixed_clock codeUnitCompare john_selected_state
        [Refresh 1, Settled 1 (Resolved [item_john, item_sam] None)]) = Some person_john \<and>
   displayImages
     (run fixed_clock codeUnitCompare john_selected_state
        [Refresh 1, Settled 1 (Resolved [item_john, item_sam] None)]) = [image_john]"
proof -
  have e: "\<not> truthy_opt None" by (simp add: truthy_opt_def)
  have ev: "Refresh 1 = Load 1 \<or> Refresh 1 = Refresh 1" by simp
  have sel: "selectedPerson john_selected_state = Some person_john"
    by (simp add: john_selected_state_eq)
  have f: "sb_identifier (sharedBy image_john) = ''j1''"
    "sb_identifier (sharedBy image_sam) = ''s1''" "identifier person_john = ''j1''"
    by (simp_all add: image_john_def image_sam_def person_john_def)
  from C2_load_success [OF ev e, of fixed_clock codeUnitCompare "[item_john, item_sam]"
      john_selected_state]
  have "selectedPerson
     (run fixed_clock codeUnitCompare john_selected_state
        [Refresh 1, Settled 1 (Resolved [item_john, item_sam] None)]) = Some person_john \<and>
   displayImages
     (run fixed_clock codeUnitCompare john_selected_state
        [Refresh 1, Settled 1 (Resolved [item_john, item_sam] None)]) = [image_john]"
    unfolding Let_def sel proc_john_sam by (simp add: f)
  with e sel show ?thesis by simp
qed

text \<open>
  C7: when a refresh fails (the fetch resolves with an error text, or rejects), the
  state after it has the \<open>displayImages\<close>, \<open>availablePeople\<close> and selection it had
  before the refresh, \<open>isLoading\<close> is false and \<open>error\<close> is the failure's message,
  which is not \<open>null\<close>.
\<close>

theorem C7_failed_refresh_keeps_data:
  assumes "fetch_failed outcome"
  shows "let s' = run clock lc s [Refresh rid, Settled rid outcome]
         in displayImages s' = displayImages s \<and>
            availablePeople s' = availablePeople s \<and>
            selectedPerson s' = selectedPerson s \<and>
            \<not> isLoading s' \<and>
            error s' \<noteq> None \<and>
            error s' =
              (case outcome of
                 Resolved rawItems err \<Rightarrow> err
               | Rejected msg \<Rightarrow>
                   Some (case msg of Some m \<Rightarrow> m | None \<Rightarrow> ''Failed to load data''))"
proof -
  let ?s1 = "step clock lc s (Refresh rid)"
  let ?e = "case outcome of
              Resolved rawItems err \<Rightarrow> err
            | Rejected msg \<Rightarrow>
                Some (case msg of Some m \<Rightarrow> m | None \<Rightarrow> ''Failed to load data'')"
  have s': "run clock lc s [Refresh rid, Settled rid outcome] = selectionReducer ?s1 (SET_ERROR ?e)"
    unfolding run_two by (rule settle_failure [OF assms])
  have ne: "?e \<noteq> None"
    using assms by (cases outcome) (auto simp: fetch_failed_def truthy_opt_def split: option.splits)
  have keep: "displayImages ?s1 = displayImages s" "availablePeople ?s1 = availablePeople s"
    "selectedPerson ?s1 = selectedPerson s"
    by (rule issue_fields [of "Refresh rid" rid, OF disjI2 [OF refl]])+
  show ?thesis unfolding Let_def s' using ne keep by simp
qed

theorem C7_failed_refresh_keeps_data_witness:
  "fetch_failed (Resolved [] (Some ''Authentication required - please sign in'')) \<and>
   displayImages
     (run fixed_clock codeUnitCompare loaded_state
        [Refresh 1, Settled 1 (Resolved [] (Some ''Authentication required - please sign in''))]) =
     [image_john, image_sam] \<and>
   availablePeople
     (run fixed_clock codeUnitCompare loaded_state
        [Refresh 1, Settled 1 (Resolved [] (Some ''Authentication required - please sign in''))]) =
     [person_john, person_sam] \<and>
   error
     (run fixed_clock codeUnitCompare loaded_state
        [Refresh 1, Settled 1 (Resolved [] (Some ''Authentication required - please sign in''))]) =
     Some ''Authentication required - please sign in''"
proof -
  have f: "fetch_failed (Resolved [] (Some ''Authentication required - please sign in''))"
    by (simp add: fetch_failed_def truthy_opt_def truthy_def)
  have l: "displayImages loaded_state = [image_john, image_sam]"
    "availablePeople loaded_state = [person_john, person_sam]"
    by (simp_all add: loaded_state_eq)
  from C7_failed_refresh_keeps_data [OF f, of fixed_clock codeUnitCompare loaded_state 1] f
  show ?thesis unfolding Let_def l by simp
qed

text \<open>
  C10 (as stated): of two refreshes in flight only the one issued last is applied.
  Refresh 1 is issued, then refresh 2; refresh 2 settles first with Sam's image and
  refresh 1 settles after it with John's: the final state shows the result of
  refresh 1, the superseded request.
\<close>

theorem C10_superseded_result_counterexample:
  "displayImages
     (run fixed_clock codeUnitCompare initialState
        [Refresh 1, Refresh 2, Settled 2 (Resolved [item_sam] None),
         Settled 1 (Resolved [item_john] None)]) = [image_john] \<and>
   availablePeople
     (run fixed_clock codeUnitCompare initialState
        [Refresh 1, Refresh 2, Settled 2 (Resolved [item_sam] None),
         Settled 1 (Resolved [item_john] None)]) = [person_john] \<and>
   displayImages
     (run fixed_clock codeUnitCompare initialState
        [Refresh 2, Settled 2 (Resolved [item_sam] None)]) = [image_sam] \<and>
   image_john \<noteq> image_sam"
  by (simp add: engine_defs proc_john proc_sam) (simp add: image_john_def image_sam_def)

text \<open>
  C10 (amended): the engine applies the result of every load or refresh when it
  settles, whatever was issued in the meantime: after any sequence of events, a fetch
  that settles successfully sets the people list and the displayed images (filtered by
  the current selection) from its own items. The final state reflects the request
  that settled last.
\<close>

theorem C10_last_settled_wins:
  assumes "\<not> truthy_opt err"
  shows "let before = run clock lc s events;
             s' = run clock lc s (events @ [Settled rid (Resolved rawItems err)]);
             processed = processGraphItems clock lc rawItems;
             allImages = concat (map images (groupings processed))
         in availablePeople s' = allPeople processed \<and>
            displayImages s' =
              (case selectedPerson before of
                 None \<Rightarrow> allImages
               | Some p \<Rightarrow>
                   filter (\<lambda>img. sb_identifier (sharedBy img) = identifier p) allImages) \<and>
            selectedPerson s' = selectedPerson before \<and>
            \<not> isLoading s' \<and> error s' = None"
  unfolding Let_def run_snoc settle_success [OF assms]
  by (simp add: Let_def split: option.splits)

theorem C10_last_settled_wins_witness:
  "\<not> truthy_opt None \<and>
   availablePeople
     (run fixed_clock codeUnitCompare initialState
        ([Refresh 1, Refresh 2, Settled 2 (Resolved [item_sam] None)] @
         [Settled 1 (Resolved [item_john] None)])) = [person_john] \<and>
   displayImages
     (run fixed_clock codeUnitCompare initialState
        ([Refresh 1, Refresh 2, Settled 2 (Resolved [item_sam] None)] @
         [Settled 1 (Resolved [item_john] None)])) = [image_john]"
proof -
  have e: "\<not> truthy_opt None" by (simp add: truthy_opt_def)
  have b: "selectedPerson (run fixed_clock codeUnitCompare initialState
      [Refresh 1, Refresh 2, Settled 2 (Resolved [item_sam] None)]) = None"
    by (simp add: engine_defs proc_sam)
  from C10_last_settled_wins [OF e, of fixed_clock codeUnitCompare initialState
      "[Refresh 1, Refresh 2, Settled 2 (Resolved [item_sam] None)]" 1 "[item_john]"] e
  show ?thesis unfolding Let_def b proc_john by simp
qed

end
